theory Spec2Isabelle
  imports Complex_Main
begin

section \<open>Text highlighting engine (utils/textHighlighter)\<close>

subsection \<open>Characters, whitespace and case folding\<close>

text \<open>
  Document and rule texts are JavaScript strings. They are modelled as \<open>string\<close>, that is
  as lists of code units below 256 (the Latin-1 range). On that range the regular
  expression class \<open>\s\<close> and \<open>String.prototype.trim\<close> agree on the same seven
  characters: TAB, LF, VT, FF, CR, SPACE and NBSP.
\<close>

definition isSpace :: "char \<Rightarrow> bool" where
  "isSpace c = (c \<in> set [CHR 0x09, CHR 0x0A, CHR 0x0B, CHR 0x0C, CHR 0x0D, CHR 0x20, CHR 0xA0])"

text \<open>
  Canonicalisation of a code unit under the \<open>i\<close> flag (without \<open>u\<close>): the upper-case
  mapping when it is a single code unit. Inside Latin-1 that maps a..z and the accented
  lower-case letters 0xE0..0xFE (except the division sign 0xF7) down by 32; the images
  of 0xB5, 0xDF and 0xFF lie outside the range or are not single units, so those
  characters only equal themselves.
\<close>

definition canonicalize :: "char \<Rightarrow> char" where
  "canonicalize c =
     (let n = (of_char c :: nat)
      in if (97 \<le> n \<and> n \<le> 122) \<or> (224 \<le> n \<and> n \<le> 254 \<and> n \<noteq> 247)
         then char_of (n - 32) else c)"

definition charMatches :: "bool \<Rightarrow> char \<Rightarrow> char \<Rightarrow> bool" where
  "charMatches ignoreCase c d =
     (if ignoreCase then canonicalize c = canonicalize d else c = d)"

definition trim :: "string \<Rightarrow> string" where
  "trim s = rev (dropWhile isSpace (rev (dropWhile isSpace s)))"

subsection \<open>Data\<close>

record highlightRule =
  rule_text :: string
  rule_color :: string
  caseSensitive :: bool

record highlight =
  hl_start :: nat
  hl_end :: nat
  hl_color :: string

record segment =
  seg_text :: string
  highlighted :: bool
  seg_color :: "string option"

datatype error = SyntaxError | Error string

subsection \<open>Building the pattern\<close>

text \<open>The characters of the class \<open>[.*+?^${}()|[\]\\]\<close>.\<close>

definition specialChars :: "char list" where
  "specialChars = [CHR ''.'', CHR ''*'', CHR ''+'', CHR ''?'', CHR ''^'', CHR ''$'',
     CHR ''{'', CHR ''}'', CHR ''('', CHR '')'', CHR ''|'', CHR ''['', CHR '']'', CHR 0x5C]"

text \<open>\<open>text.replace(/[.*+?^${}()|[\]\\]/g, '\\$&')\<close>: a backslash before each special character.\<close>

fun escapeText :: "string \<Rightarrow> string" where
  "escapeText [] = []"
| "escapeText (c # cs) =
     (if c \<in> set specialChars then CHR 0x5C # c # escapeText cs else c # escapeText cs)"

text \<open>\<open>escapedText.replace(/\s+/g, '\\s+')\<close>: each maximal whitespace run becomes the four
  characters backslash, s, plus.\<close>

function whitespacePattern :: "string \<Rightarrow> string" where
  "whitespacePattern [] = []"
| "whitespacePattern (c # cs) =
     (if isSpace c then [CHR 0x5C, CHR ''s'', CHR ''+''] @ whitespacePattern (dropWhile isSpace cs)
      else c # whitespacePattern cs)"
  by pat_completeness auto
termination
  by (relation "measure length") (auto simp: length_dropWhile_le less_Suc_eq_le)

definition buildPattern :: "string \<Rightarrow> string" where
  "buildPattern t = whitespacePattern (escapeText t)"

subsection \<open>The regular expression\<close>

text \<open>
  The fragment of the pattern language that \<open>new RegExp(pattern, flags)\<close> is given here:
  a pattern character that is not a syntax character stands for itself, a backslash
  before a syntax character is an identity escape, and \<open>\s+\<close> is the whitespace class
  under the greedy quantifier \<open>+\<close>. Anything else is outside the fragment and reported
  as \<open>None\<close>.
\<close>

datatype atom = Lit char | WsPlus

fun compile :: "string \<Rightarrow> atom list option" where
  "compile [] = Some []"
| "compile (c # cs) =
     (if c = CHR 0x5C then
        (case cs of
           [] \<Rightarrow> None
         | d # ds \<Rightarrow>
             if d = CHR ''s'' then
               (case ds of
                  [] \<Rightarrow> None
                | e # es \<Rightarrow> if e = CHR ''+'' then map_option ((#) WsPlus) (compile es) else None)
             else if d \<in> set specialChars then map_option ((#) (Lit d)) (compile ds)
             else None)
      else if c \<in> set specialChars then None
      else map_option ((#) (Lit c)) (compile cs))"

text \<open>
  Backtracking match of the atoms at the head of the input; the result is the length of
  the match. The quantifier is greedy: after one whitespace character it first tries
  another iteration and only when that fails goes on with the rest of the pattern.
\<close>

fun matchHere :: "bool \<Rightarrow> atom list \<Rightarrow> string \<Rightarrow> nat option" where
  "matchHere ic [] s = Some 0"
| "matchHere ic (Lit c # as) [] = None"
| "matchHere ic (Lit c # as) (d # s) =
     (if charMatches ic c d then map_option Suc (matchHere ic as s) else None)"
| "matchHere ic (WsPlus # as) [] = None"
| "matchHere ic (WsPlus # as) (d # s) =
     (if isSpace d then
        (case matchHere ic (WsPlus # as) s of
           Some n \<Rightarrow> Some (Suc n)
         | None \<Rightarrow> map_option Suc (matchHere ic as s))
      else None)"

text \<open>
  \<open>regex.exec(originalText)\<close> with the \<open>g\<close> flag, started at \<open>lastIndex\<close>: the leftmost
  position from \<open>lastIndex\<close> up to and including the length of the text where the
  pattern matches, with the length of the match; \<open>None\<close> is \<open>null\<close>.
\<close>

function exec :: "bool \<Rightarrow> atom list \<Rightarrow> string \<Rightarrow> nat \<Rightarrow> (nat \<times> nat) option" where
  "exec ic as originalText lastIndex =
     (if lastIndex > length originalText then None
      else (case matchHere ic as (drop lastIndex originalText) of
              Some n \<Rightarrow> Some (lastIndex, n)
            | None \<Rightarrow> exec ic as originalText (Suc lastIndex)))"
  by pat_completeness auto
termination
  by (relation "measure (\<lambda>(ic, as, t, i). Suc (length t) - i)") auto

text \<open>
  The \<open>while ((match = regex.exec(originalText)) !== null)\<close> loop of one rule. After a
  match \<open>lastIndex\<close> is the end of the match; the guard adds one after an empty match.
\<close>

function scan :: "bool \<Rightarrow> atom list \<Rightarrow> string \<Rightarrow> string \<Rightarrow> nat \<Rightarrow> highlight list" where
  "scan ic as col originalText lastIndex =
     (case exec ic as originalText lastIndex of
        None \<Rightarrow> []
      | Some (index, n) \<Rightarrow>
          \<lparr>hl_start = index, hl_end = index + n, hl_color = col\<rparr>
            # scan ic as col originalText (if n = 0 then index + n + 1 else index + n))"
  by pat_completeness auto
termination
proof (relation "measure (\<lambda>(ic, as, col, t, i). Suc (length t) - i)")
  show "wf (measure (\<lambda>(ic, as, col, t, i). Suc (length t) - i))"
    by simp
next
  fix ic :: bool and as :: "atom list" and col t :: string and lastIndex :: nat
    and x2 :: "nat \<times> nat" and index n :: nat
  assume e: "exec ic as t lastIndex = Some x2" and x: "(index, n) = x2"
  have bounds: "\<And>i r. exec ic as t i = Some r \<Longrightarrow> i \<le> fst r \<and> fst r \<le> length t"
  proof -
    fix i r
    show "exec ic as t i = Some r \<Longrightarrow> i \<le> fst r \<and> fst r \<le> length t"
    proof (induction ic as t i rule: exec.induct)
      case (1 ic as t i)
      then show ?case
        by (cases "matchHere ic as (drop i t)") (auto split: if_splits)
    qed
  qed
  from bounds [OF e] x have "lastIndex \<le> index" "index \<le> length t"
    by auto
  then show "((ic, as, col, t, if n = 0 then index + n + 1 else index + n),
              (ic, as, col, t, lastIndex)) \<in> measure (\<lambda>(ic, as, col, t, i). Suc (length t) - i)"
    by auto
qed

declare exec.simps [simp del]
declare scan.simps [simp del]

subsection \<open>Collecting, sorting and merging the highlights\<close>

text \<open>The body of \<open>highlightRules.forEach\<close> for one rule: the matches pushed for it.\<close>

definition ruleHighlights :: "string \<Rightarrow> highlightRule \<Rightarrow> error + highlight list" where
  "ruleHighlights originalText rule =
     (case compile (buildPattern (rule_text rule)) of
        None \<Rightarrow> Inl SyntaxError
      | Some regex \<Rightarrow>
          Inr (scan (\<not> caseSensitive rule) regex (rule_color rule) originalText 0))"

fun collectHighlights :: "string \<Rightarrow> highlightRule list \<Rightarrow> error + highlight list" where
  "collectHighlights originalText [] = Inr []"
| "collectHighlights originalText (rule # rules) =
     (case ruleHighlights originalText rule of
        Inl e \<Rightarrow> Inl e
      | Inr hs \<Rightarrow>
          (case collectHighlights originalText rules of
             Inl e \<Rightarrow> Inl e
           | Inr hs' \<Rightarrow> Inr (hs @ hs')))"

text \<open>The \<open>for\<close> loop of \<open>mergeOverlappingHighlights\<close>, with \<open>merged\<close> and \<open>current\<close> as state.\<close>

fun mergeLoop :: "highlight list \<Rightarrow> highlight \<Rightarrow> highlight list \<Rightarrow> highlight list" where
  "mergeLoop merged current [] = merged @ [current]"
| "mergeLoop merged current (next # rest) =
     (if hl_start next < hl_end current then
        mergeLoop
          (if hl_start next > hl_start current
           then merged @ [\<lparr>hl_start = hl_start current, hl_end = hl_start next,
                            hl_color = hl_color current\<rparr>]
           else merged)
          \<lparr>hl_start = hl_start next, hl_end = max (hl_end current) (hl_end next),
            hl_color = hl_color next\<rparr>
          rest
      else mergeLoop (merged @ [current]) next rest)"

definition mergeOverlappingHighlights :: "highlight list \<Rightarrow> string \<Rightarrow> highlight list" where
  "mergeOverlappingHighlights highlights originalText =
     (case highlights of [] \<Rightarrow> [] | h # rest \<Rightarrow> mergeLoop [] h rest)"

subsection \<open>Segments\<close>

text \<open>\<open>String.prototype.substring\<close>: both indices are clamped to the length and swapped
  when the first is the larger.\<close>

definition substring :: "string \<Rightarrow> nat \<Rightarrow> nat \<Rightarrow> string" where
  "substring s a b =
     (let len = length s; finalStart = min a len; finalEnd = min b len;
          from = min finalStart finalEnd; to = max finalStart finalEnd
      in take (to - from) (drop from s))"

definition substringFrom :: "string \<Rightarrow> nat \<Rightarrow> string" where
  "substringFrom s a = substring s a (length s)"

definition plainSegment :: "string \<Rightarrow> segment" where
  "plainSegment t = \<lparr>seg_text = t, highlighted = False, seg_color = None\<rparr>"

text \<open>The \<open>mergedHighlights.forEach\<close> loop, with \<open>segments\<close> and \<open>currentIndex\<close> as state.\<close>

fun segmentLoop :: "string \<Rightarrow> segment list \<Rightarrow> nat \<Rightarrow> highlight list \<Rightarrow> segment list \<times> nat" where
  "segmentLoop originalText segments currentIndex [] = (segments, currentIndex)"
| "segmentLoop originalText segments currentIndex (h # hs) =
     segmentLoop originalText
       ((if hl_start h > currentIndex
         then segments @ [plainSegment (substring originalText currentIndex (hl_start h))]
         else segments)
        @ [\<lparr>seg_text = substring originalText (hl_start h) (hl_end h), highlighted = True,
             seg_color = Some (hl_color h)\<rparr>])
       (hl_end h) hs"

text \<open>The rule list is optional: \<open>None\<close> stands for a \<open>null\<close> or \<open>undefined\<close> argument.\<close>

definition createHighlightedSegments ::
  "string \<Rightarrow> highlightRule list option \<Rightarrow> error + segment list" where
  "createHighlightedSegments originalText highlightRules =
     (case highlightRules of
        None \<Rightarrow> Inr [plainSegment originalText]
      | Some rules \<Rightarrow>
          if length rules = 0 then Inr [plainSegment originalText]
          else
            (case collectHighlights originalText rules of
               Inl e \<Rightarrow> Inl e
             | Inr highlights \<Rightarrow>
                 let sorted = sort_key hl_start highlights;
                     mergedHighlights = mergeOverlappingHighlights sorted originalText;
                     (segments, currentIndex) = segmentLoop originalText [] 0 mergedHighlights;
                     segments' =
                       (if currentIndex < length originalText
                        then segments @ [plainSegment (substringFrom originalText currentIndex)]
                        else segments)
                 in Inr (if length segments' > 0 then segments'
                         else [plainSegment originalText])))"

subsection \<open>Validation of highlight rules\<close>

text \<open>
  The validator inspects objects whose fields may be missing or of the wrong type, so a
  field is a JavaScript value here. The argument itself may fail to be an array.
\<close>

datatype jsValue = Undefined | Null | Boolean bool | Number int | String string

record ruleObject =
  ro_text :: jsValue
  ro_color :: jsValue
  ro_caseSensitive :: jsValue

datatype rulesArgument = NotAnArray | Array "ruleObject list"

record validationResult =
  isValid :: bool
  errors :: "string list"

text \<open>\<open>HIGHLIGHT_COLORS\<close> and \<open>Object.values(HIGHLIGHT_COLORS)\<close>.\<close>

definition HIGHLIGHT_COLORS :: "(string \<times> string) list" where
  "HIGHLIGHT_COLORS = [(''RED'', ''red''), (''GREEN'', ''green''), (''YELLOW'', ''yellow'')]"

definition validColors :: "string list" where
  "validColors = map snd HIGHLIGHT_COLORS"

fun falsy :: "jsValue \<Rightarrow> bool" where
  "falsy Undefined = True"
| "falsy Null = True"
| "falsy (Boolean b) = (\<not> b)"
| "falsy (Number n) = (n = 0)"
| "falsy (String s) = (s = [])"

fun typeof :: "jsValue \<Rightarrow> string" where
  "typeof Undefined = ''undefined''"
| "typeof Null = ''object''"
| "typeof (Boolean b) = ''boolean''"
| "typeof (Number n) = ''number''"
| "typeof (String s) = ''string''"

fun trimIsEmpty :: "jsValue \<Rightarrow> bool" where
  "trimIsEmpty (String s) = (trim s = [])"
| "trimIsEmpty v = False"

text \<open>\<open>validColors.includes(v)\<close>: only a string equal to one of the entries is included.\<close>

fun includesColor :: "string list \<Rightarrow> jsValue \<Rightarrow> bool" where
  "includesColor cs (String s) = (s \<in> set cs)"
| "includesColor cs v = False"

text \<open>\<open>validColors.join(', ')\<close>.\<close>

fun join :: "string \<Rightarrow> string list \<Rightarrow> string" where
  "join sep [] = []"
| "join sep [x] = x"
| "join sep (x # y # ys) = x @ sep @ join sep (y # ys)"

text \<open>The decimal digits of a number, for the template literal \<open>${index + 1}\<close>.\<close>

fun showNat :: "nat \<Rightarrow> string" where
  "showNat n = (if n < 10 then [char_of (48 + n)]
                else showNat (n div 10) @ [char_of (48 + n mod 10)])"

declare showNat.simps [simp del]

definition ruleErrors :: "nat \<Rightarrow> ruleObject \<Rightarrow> string list" where
  "ruleErrors index rule =
     (if falsy (ro_text rule) \<or> typeof (ro_text rule) \<noteq> ''string'' \<or> trimIsEmpty (ro_text rule)
      then [''Rule '' @ showNat (index + 1) @ '': Text is required and must be a non-empty string'']
      else [])
     @ (if falsy (ro_color rule) \<or> \<not> includesColor validColors (ro_color rule)
        then [''Rule '' @ showNat (index + 1) @ '': Color must be one of: '' @ join '', '' validColors]
        else [])
     @ (if ro_caseSensitive rule \<noteq> Undefined \<and> typeof (ro_caseSensitive rule) \<noteq> ''boolean''
        then [''Rule '' @ showNat (index + 1) @ '': caseSensitive must be a boolean'']
        else [])"

text \<open>The \<open>rules.forEach((rule, index) => ...)\<close> loop, pushing onto \<open>errors\<close>.\<close>

fun validateLoop :: "string list \<Rightarrow> nat \<Rightarrow> ruleObject list \<Rightarrow> string list" where
  "validateLoop errs index [] = errs"
| "validateLoop errs index (rule # rules) =
     validateLoop (errs @ ruleErrors index rule) (Suc index) rules"

definition validateHighlightRules :: "rulesArgument \<Rightarrow> validationResult" where
  "validateHighlightRules rules =
     (case rules of
        NotAnArray \<Rightarrow> \<lparr>isValid = False, errors = [''Rules must be an array'']\<rparr>
      | Array rs \<Rightarrow>
          let errs = validateLoop [] 0 rs
          in \<lparr>isValid = (length errs = 0), errors = errs\<rparr>)"

section \<open>Layout-aware text extraction (utils/pdfParser)\<close>

text \<open>
  Coordinates and widths are JavaScript numbers; they are modelled as exact rationals,
  on which the arithmetic of the source (subtraction, division by 2, 5 and 6, floor,
  round) is computed without rounding error. The decoding of the file is done by the
  PDF library: its outcome is the input here, either a failure with a message or the
  text items of each page in order.
\<close>

type_synonym matrix = "rat \<times> rat \<times> rat \<times> rat \<times> rat \<times> rat"

record textItem =
  str :: "string option"
  transform :: "matrix option"
  width :: "rat option"

record lineItem =
  li_text :: string
  li_x :: rat
  li_y :: rat
  li_width :: rat

datatype pdfDocument = DecodeFailure string | Pages "textItem list list"

text \<open>\<open>Math.round(y / 2) * 2\<close>; \<open>Math.round\<close> rounds halves upwards.\<close>

definition lineKey :: "rat \<Rightarrow> int" where
  "lineKey y = \<lfloor>y / 2 + 1 / 2\<rfloor> * 2"

text \<open>The \<open>Map\<close> from line keys to item arrays, in insertion order:
  \<open>if (!lineMap.has(k)) lineMap.set(k, []); lineMap.get(k).push(item)\<close>.\<close>

fun lineMapPush :: "(int \<times> lineItem list) list \<Rightarrow> int \<Rightarrow> lineItem \<Rightarrow> (int \<times> lineItem list) list" where
  "lineMapPush [] k it = [(k, [it])]"
| "lineMapPush ((k', its) # m) k it =
     (if k' = k then (k', its @ [it]) # m else (k', its) # lineMapPush m k it)"

text \<open>One step of \<open>textContent.items.forEach\<close>; an item without text or without transform
  is skipped, a missing or zero width counts as 0.\<close>

definition addItem :: "(int \<times> lineItem list) list \<Rightarrow> textItem \<Rightarrow> (int \<times> lineItem list) list" where
  "addItem lineMap item =
     (case str item of
        None \<Rightarrow> lineMap
      | Some s \<Rightarrow>
          if s = [] then lineMap
          else (case transform item of
                  None \<Rightarrow> lineMap
                | Some (t0, t1, t2, t3, x, y) \<Rightarrow>
                    lineMapPush lineMap (lineKey y)
                      \<lparr>li_text = s, li_x = x, li_y = y,
                        li_width = (case width item of None \<Rightarrow> 0 | Some w \<Rightarrow> w)\<rparr>))"

text \<open>One step of \<open>items.forEach\<close> inside a line, with \<open>lineText\<close> and \<open>lastXEnd\<close> as state.\<close>

fun lineStep :: "string \<times> rat option \<Rightarrow> lineItem \<Rightarrow> string \<times> rat option" where
  "lineStep (lineText, lastXEnd) item =
     (let lineText' =
        (case lastXEnd of
           Some l \<Rightarrow>
             (let gap = li_x item - l
              in if gap > 5 then lineText @ replicate (nat (max 1 \<lfloor>gap / 5\<rfloor>)) (CHR '' '')
                 else if gap > 1 then lineText @ '' ''
                 else lineText)
         | None \<Rightarrow>
             (let indent = \<lfloor>li_x item / 6\<rfloor>
              in if indent > 0 then lineText @ replicate (nat indent) (CHR '' '')
                 else lineText))
      in (lineText' @ li_text item, Some (li_x item + li_width item)))"

text \<open>The text of one line: the items sorted by x (the sort is stable), then the loop.\<close>

definition buildLine :: "lineItem list \<Rightarrow> string" where
  "buildLine items = fst (foldl lineStep ([], None) (sort_key li_x items))"

text \<open>The lines of a page, top to bottom: the map entries sorted by descending key.\<close>

definition pageLines :: "textItem list \<Rightarrow> string list" where
  "pageLines items =
     map (\<lambda>(k, its). buildLine its) (sort_key (\<lambda>(k, its). - k) (foldl addItem [] items))"

text \<open>\<open>pageText += lineText + '\n'\<close> for each line.\<close>

definition pageText :: "textItem list \<Rightarrow> string" where
  "pageText items = foldl (\<lambda>acc lineText. acc @ lineText @ [CHR 0x0A]) [] (pageLines items)"

text \<open>The \<open>for (pageNum = 1; pageNum <= totalPages; pageNum++)\<close> loop over the pages.\<close>

fun pagesLoop :: "string \<Rightarrow> nat \<Rightarrow> nat \<Rightarrow> textItem list list \<Rightarrow> string" where
  "pagesLoop fullText pageNum totalPages [] = fullText"
| "pagesLoop fullText pageNum totalPages (items # rest) =
     pagesLoop
       (if pageNum < totalPages then fullText @ pageText items @ [CHR 0x0A]
        else fullText @ pageText items)
       (Suc pageNum) totalPages rest"

definition extractTextFromPDF :: "pdfDocument \<Rightarrow> error + string" where
  "extractTextFromPDF pdf =
     (case pdf of
        DecodeFailure message \<Rightarrow> Inl (Error (''Failed to extract text from PDF: '' @ message))
      | Pages pages \<Rightarrow> Inr (trim (pagesLoop [] 1 (length pages) pages)))"

section \<open>Specification-level notions\<close>

text \<open>The positions covered by a list of spans, each span half-open.\<close>

definition covered :: "highlight list \<Rightarrow> nat set" where
  "covered hs = {p. \<exists>h \<in> set hs. hl_start h \<le> p \<and> p < hl_end h}"

text \<open>
  The reading of a rule text that the specification describes: every maximal run of
  whitespace is one whitespace token, every other character a literal.
\<close>

function tokens :: "string \<Rightarrow> atom list" where
  "tokens [] = []"
| "tokens (c # cs) =
     (if isSpace c then WsPlus # tokens (dropWhile isSpace cs) else Lit c # tokens cs)"
  by pat_completeness auto
termination
  by (relation "measure length") (auto simp: length_dropWhile_le less_Suc_eq_le)

text \<open>
  A string is an instance of a token list when it splits into one piece per token: a
  literal's piece is one character equal to it (up to case when case is ignored), a
  whitespace token's piece is any run of one or more whitespace characters.
\<close>

fun instanceOf :: "bool \<Rightarrow> atom list \<Rightarrow> string \<Rightarrow> bool" where
  "instanceOf ic [] s = (s = [])"
| "instanceOf ic (Lit c # as) s =
     (case s of [] \<Rightarrow> False | d # s' \<Rightarrow> charMatches ic c d \<and> instanceOf ic as s')"
| "instanceOf ic (WsPlus # as) s =
     (\<exists>n \<in> {1..length s}. (\<forall>x \<in> set (take n s). isSpace x) \<and> instanceOf ic as (drop n s))"





text \<open>
  The page texts as the specification joins them: every page but the last is followed
  by one extra newline.
\<close>

fun specJoin :: "string list \<Rightarrow> string" where
  "specJoin [] = []"
| "specJoin [p] = p"
| "specJoin (p # q # ps) = p @ [CHR 0x0A] @ specJoin (q # ps)"

section \<open>Properties of the matcher\<close>

lemma matchHere_le: "matchHere ic as s = Some n \<Longrightarrow> n \<le> length s"
  by (induction ic as s arbitrary: n rule: matchHere.induct)
    (auto split: if_splits option.splits)

lemma matchHere_pos: "as \<noteq> [] \<Longrightarrow> matchHere ic as s = Some n \<Longrightarrow> 0 < n"
  by (induction ic as s arbitrary: n rule: matchHere.induct)
    (auto split: if_splits option.splits)

lemma exec_Some:
  "exec ic as t i = Some (j, n) \<Longrightarrow>
     i \<le> j \<and> j \<le> length t \<and> matchHere ic as (drop j t) = Some n"
proof (induction ic as t i rule: exec.induct)
  case (1 ic as t i)
  show ?case
  proof (cases "matchHere ic as (drop i t)")
    case None
    with "1.prems" have "i \<le> length t" and "exec ic as t (Suc i) = Some (j, n)"
      by (auto simp: exec.simps [of ic as t i] split: if_splits)
    with "1.IH" None show ?thesis by fastforce
  next
    case (Some m)
    with "1.prems" show ?thesis
      by (auto simp: exec.simps [of ic as t i] split: if_splits)
  qed
qed

lemma exec_end: "exec ic as t i = Some (j, n) \<Longrightarrow> j + n \<le> length t"
  using exec_Some [of ic as t i j n] matchHere_le [of ic as "drop j t" n] by auto

lemma scan_spans:
  "h \<in> set (scan ic as col t i) \<Longrightarrow>
     i \<le> hl_start h \<and> hl_start h \<le> hl_end h \<and> hl_end h \<le> length t \<and> hl_color h = col
       \<and> matchHere ic as (drop (hl_start h) t) = Some (hl_end h - hl_start h)"
proof (induction ic as col t i rule: scan.induct)
  case (1 ic as col t i)
  show ?case
  proof (cases "exec ic as t i")
    case None
    with "1.prems" show ?thesis by (simp add: scan.simps [of ic as col t i])
  next
    case (Some r)
    obtain j n where r: "r = (j, n)" by (cases r)
    from Some r have e: "exec ic as t i = Some (j, n)" by simp
    note b = exec_Some [OF e] exec_end [OF e]
    from "1.prems" e have
      "h = \<lparr>hl_start = j, hl_end = j + n, hl_color = col\<rparr>
       \<or> h \<in> set (scan ic as col t (if n = 0 then j + n + 1 else j + n))"
      by (simp add: scan.simps [of ic as col t i])
    then show ?thesis
    proof
      assume "h = \<lparr>hl_start = j, hl_end = j + n, hl_color = col\<rparr>"
      with b show ?thesis by simp
    next
      assume "h \<in> set (scan ic as col t (if n = 0 then j + n + 1 else j + n))"
      from "1.IH" [OF e refl this] b show ?thesis by (auto split: if_splits)
    qed
  qed
qed

lemma scan_length: "as \<noteq> [] \<Longrightarrow> length (scan ic as col t i) \<le> length t - i"
proof (induction ic as col t i rule: scan.induct)
  case (1 ic as col t i)
  show ?case
  proof (cases "exec ic as t i")
    case None
    then show ?thesis by (simp add: scan.simps [of ic as col t i])
  next
    case (Some r)
    obtain j n where r: "r = (j, n)" by (cases r)
    from Some r have e: "exec ic as t i = Some (j, n)" by simp
    note b = exec_Some [OF e] exec_end [OF e]
    from b "1.prems" have n: "0 < n" using matchHere_pos by blast
    from "1.IH" [OF e refl "1.prems"] n
    have "length (scan ic as col t (j + n)) \<le> length t - (j + n)" by simp
    moreover from e n have "length (scan ic as col t i) = Suc (length (scan ic as col t (j + n)))"
      by (simp add: scan.simps [of ic as col t i])
    moreover from b have "i \<le> j" and "j + n \<le> length t" by simp_all
    ultimately show ?thesis using n by linarith
  qed
qed

lemma escapeText_dropWhile:
  "dropWhile isSpace (escapeText cs) = escapeText (dropWhile isSpace cs)"
  by (induction cs) (auto simp: isSpace_def specialChars_def)

lemma compile_buildPattern: "compile (buildPattern t) = Some (tokens t)"
  unfolding buildPattern_def
proof (induction t rule: tokens.induct)
  case 1
  show ?case by simp
next
  case (2 c cs)
  show ?case
  proof (cases "isSpace c")
    case True
    then have "c \<notin> set specialChars"
      by (auto simp: isSpace_def specialChars_def)
    with True 2 show ?thesis
      by (simp add: escapeText_dropWhile)
  next
    case False
    show ?thesis
    proof (cases "c \<in> set specialChars")
      case True
      then have "c \<noteq> CHR ''s''" by (auto simp: specialChars_def)
      moreover have "\<not> isSpace (CHR 0x5C)" by (simp add: isSpace_def)
      ultimately show ?thesis using True False 2 by simp
    next
      case nsp: False
      then have "c \<noteq> CHR 0x5C" by (auto simp: specialChars_def)
      with nsp False 2 show ?thesis by simp
    qed
  qed
qed

lemma tokens_Nil_iff: "tokens t = [] \<longleftrightarrow> t = []"
  by (cases t) auto

lemma trim_nonempty: "trim t \<noteq> [] \<Longrightarrow> t \<noteq> []"
  by (auto simp: trim_def)

lemma instanceOf_WsPlus_iff:
  "instanceOf ic (WsPlus # as) s \<longleftrightarrow>
     (\<exists>ws rest. s = ws @ rest \<and> ws \<noteq> [] \<and> (\<forall>x \<in> set ws. isSpace x) \<and> instanceOf ic as rest)"
proof
  assume "instanceOf ic (WsPlus # as) s"
  then obtain n where n: "1 \<le> n" "n \<le> length s" "\<forall>x \<in> set (take n s). isSpace x"
      "instanceOf ic as (drop n s)"
    by auto
  then have "s = take n s @ drop n s \<and> take n s \<noteq> []" by auto
  with n show "\<exists>ws rest. s = ws @ rest \<and> ws \<noteq> [] \<and> (\<forall>x \<in> set ws. isSpace x) \<and> instanceOf ic as rest"
    by blast
next
  assume "\<exists>ws rest. s = ws @ rest \<and> ws \<noteq> [] \<and> (\<forall>x \<in> set ws. isSpace x) \<and> instanceOf ic as rest"
  then obtain ws rest where w: "s = ws @ rest" "ws \<noteq> []" "\<forall>x \<in> set ws. isSpace x"
      "instanceOf ic as rest"
    by blast
  then have "length ws \<in> {1..length s}" by (cases ws) auto
  moreover from w have "(\<forall>x \<in> set (take (length ws) s). isSpace x)
      \<and> instanceOf ic as (drop (length ws) s)" by simp
  ultimately show "instanceOf ic (WsPlus # as) s"
    unfolding instanceOf.simps by blast
qed

lemma matchHere_sound:
  "matchHere ic as s = Some n \<Longrightarrow> instanceOf ic as (take n s)"
proof (induction ic as s arbitrary: n rule: matchHere.induct)
  case (1 ic s)
  then show ?case by simp
next
  case (2 ic c as)
  then show ?case by simp
next
  case (3 ic c as d s)
  then show ?case by (auto split: if_splits)
next
  case (4 ic as)
  then show ?case by simp
next
  case (5 ic as d s)
  from "5.prems" have sp: "isSpace d" by (auto split: if_splits)
  show ?case
  proof (cases "matchHere ic (WsPlus # as) s")
    case None
    with "5.prems" sp obtain m where m: "matchHere ic as s = Some m" "n = Suc m"
      by auto
    from "5.IH"(2) [OF sp None m(1)] have "instanceOf ic as (take m s)" .
    with sp m have "take n (d # s) = [d] @ take m s \<and> [d] \<noteq> [] \<and> (\<forall>x \<in> set [d]. isSpace x)
        \<and> instanceOf ic as (take m s)" by simp
    then show ?thesis unfolding instanceOf_WsPlus_iff by blast
  next
    case (Some m)
    with "5.prems" sp have n: "n = Suc m" by auto
    from "5.IH"(1) [OF sp Some] obtain ws rest where
      w: "take m s = ws @ rest" "ws \<noteq> []" "\<forall>x \<in> set ws. isSpace x" "instanceOf ic as rest"
      unfolding instanceOf_WsPlus_iff by blast
    with sp n have "take n (d # s) = (d # ws) @ rest \<and> d # ws \<noteq> []
        \<and> (\<forall>x \<in> set (d # ws). isSpace x) \<and> instanceOf ic as rest" by simp
    then show ?thesis unfolding instanceOf_WsPlus_iff by blast
  qed
qed

lemma matchHere_WsPlus_run:
  assumes "ws \<noteq> []" and "\<forall>x \<in> set ws. isSpace x" and "matchHere ic as rest = Some m"
  shows "\<exists>n. matchHere ic (WsPlus # as) (ws @ rest) = Some n"
  using assms(1,2)
proof (induction ws)
  case Nil
  then show ?case by simp
next
  case (Cons d ws)
  show ?case
  proof (cases "ws = []")
    case True
    with Cons.prems assms(3) show ?thesis
      by (cases "matchHere ic (WsPlus # as) rest") simp_all
  next
    case False
    with Cons obtain n where "matchHere ic (WsPlus # as) (ws @ rest) = Some n" by auto
    with Cons.prems show ?thesis by simp
  qed
qed

lemma matchHere_complete:
  "instanceOf ic as cand \<Longrightarrow> \<exists>n. matchHere ic as (cand @ post) = Some n"
proof (induction as arbitrary: cand)
  case Nil
  then show ?case by simp
next
  case (Cons a as)
  show ?case
  proof (cases a)
    case (Lit c)
    with Cons.prems obtain d cand' where c: "cand = d # cand'" "charMatches ic c d"
        "instanceOf ic as cand'"
      by (cases cand) auto
    from Cons.IH [OF c(3)] obtain m where "matchHere ic as (cand' @ post) = Some m" by blast
    with c Lit show ?thesis by simp
  next
    case WsPlus
    with Cons.prems have "instanceOf ic (WsPlus # as) cand" by simp
    then obtain ws rest where w: "cand = ws @ rest" "ws \<noteq> []"
        "\<forall>x \<in> set ws. isSpace x" "instanceOf ic as rest"
      unfolding instanceOf_WsPlus_iff by blast
    from Cons.IH [OF w(4)] obtain m where "matchHere ic as (rest @ post) = Some m" by blast
    from matchHere_WsPlus_run [OF w(2,3) this] w(1) WsPlus show ?thesis by simp
  qed
qed

lemma exec_finds:
  "matchHere ic as (drop j t) = Some n \<Longrightarrow> i \<le> j \<Longrightarrow> j \<le> length t \<Longrightarrow>
     \<exists>j' n'. exec ic as t i = Some (j', n') \<and> j' \<le> j"
proof (induction ic as t i rule: exec.induct)
  case (1 ic as t i)
  show ?case
  proof (cases "matchHere ic as (drop i t)")
    case (Some m)
    with "1.prems" show ?thesis by (simp add: exec.simps [of ic as t i])
  next
    case None
    with "1.prems" have "i \<noteq> j" by auto
    with "1.prems" have lt: "Suc i \<le> j" and il: "\<not> length t < i" by simp_all
    from "1.IH" [OF il None "1.prems"(1) lt "1.prems"(3)] None il show ?thesis
      by (simp add: exec.simps [of ic as t i])
  qed
qed

lemma scan_first:
  "exec ic as t i = Some (j, n) \<Longrightarrow>
     \<lparr>hl_start = j, hl_end = j + n, hl_color = col\<rparr> \<in> set (scan ic as col t i)"
  by (simp add: scan.simps [of ic as col t i])

section \<open>Properties of the merge\<close>

lemma mergeLoop_disjoint:
  assumes "sorted_wrt (\<lambda>a b. hl_end a \<le> hl_start b) merged"
    and "\<forall>m \<in> set merged. hl_end m \<le> hl_start current \<and> hl_start m \<le> hl_end m"
    and "hl_start current \<le> hl_end current"
    and "sorted (map hl_start (current # rest))"
    and "\<forall>h \<in> set rest. hl_start h \<le> hl_end h"
  shows "sorted_wrt (\<lambda>a b. hl_end a \<le> hl_start b) (mergeLoop merged current rest)
         \<and> (\<forall>m \<in> set (mergeLoop merged current rest). hl_start m \<le> hl_end m)"
  using assms
proof (induction rest arbitrary: merged current)
  case Nil
  then show ?case by (auto simp: sorted_wrt_append)
next
  case (Cons nxt rest)
  have 5: "\<forall>h \<in> set rest. hl_start h \<le> hl_end h"
    using Cons.prems by auto
  show ?case
  proof (cases "hl_start nxt < hl_end current")
    case True
    let ?m = "if hl_start nxt > hl_start current
              then merged @ [\<lparr>hl_start = hl_start current, hl_end = hl_start nxt,
                               hl_color = hl_color current\<rparr>]
              else merged"
    let ?c = "\<lparr>hl_start = hl_start nxt, hl_end = max (hl_end current) (hl_end nxt),
               hl_color = hl_color nxt\<rparr>"
    have 1: "sorted_wrt (\<lambda>a b. hl_end a \<le> hl_start b) ?m"
      using Cons.prems by (auto simp: sorted_wrt_append)
    have 2: "\<forall>m \<in> set ?m. hl_end m \<le> hl_start ?c \<and> hl_start m \<le> hl_end m"
      using Cons.prems by (auto intro: order_trans)
    have 3: "hl_start ?c \<le> hl_end ?c"
      using Cons.prems by auto
    have 4: "sorted (map hl_start (?c # rest))"
      using Cons.prems by auto
    from Cons.IH [OF 1 2 3 4 5] True show ?thesis by simp
  next
    case False
    have 1: "sorted_wrt (\<lambda>a b. hl_end a \<le> hl_start b) (merged @ [current])"
      using Cons.prems by (auto simp: sorted_wrt_append)
    have 2: "\<forall>m \<in> set (merged @ [current]). hl_end m \<le> hl_start nxt \<and> hl_start m \<le> hl_end m"
      using Cons.prems False by (auto intro: order_trans)
    have 3: "hl_start nxt \<le> hl_end nxt"
      using Cons.prems by auto
    have 4: "sorted (map hl_start (nxt # rest))"
      using Cons.prems by auto
    from Cons.IH [OF 1 2 3 4 5] False show ?thesis by simp
  qed
qed

lemma mergeLoop_bound:
  assumes "\<forall>m \<in> set merged. hl_end m \<le> N" and "hl_end current \<le> N"
    and "\<forall>h \<in> set rest. hl_end h \<le> N"
  shows "\<forall>m \<in> set (mergeLoop merged current rest). hl_end m \<le> N"
  using assms
proof (induction rest arbitrary: merged current)
  case Nil
  then show ?case by auto
next
  case (Cons nxt rest)
  have r: "\<forall>h \<in> set rest. hl_end h \<le> N" and n: "hl_end nxt \<le> N"
    using Cons.prems by auto
  show ?case
  proof (cases "hl_start nxt < hl_end current")
    case True
    let ?m = "if hl_start nxt > hl_start current
              then merged @ [\<lparr>hl_start = hl_start current, hl_end = hl_start nxt,
                               hl_color = hl_color current\<rparr>]
              else merged"
    let ?c = "\<lparr>hl_start = hl_start nxt, hl_end = max (hl_end current) (hl_end nxt),
               hl_color = hl_color nxt\<rparr>"
    have 1: "\<forall>m \<in> set ?m. hl_end m \<le> N"
      using Cons.prems True by auto
    have 2: "hl_end ?c \<le> N"
      using Cons.prems n by auto
    from Cons.IH [OF 1 2 r] True show ?thesis by simp
  next
    case False
    have 1: "\<forall>m \<in> set (merged @ [current]). hl_end m \<le> N"
      using Cons.prems by auto
    from Cons.IH [OF 1 n r] False show ?thesis by simp
  qed
qed

lemma covered_append: "covered (xs @ ys) = covered xs \<union> covered ys"
  by (auto simp: covered_def)

lemma covered_Cons: "covered (x # xs) = {p. hl_start x \<le> p \<and> p < hl_end x} \<union> covered xs"
  by (auto simp: covered_def)

lemma covered_Nil: "covered [] = {}"
  by (auto simp: covered_def)

lemma mergeLoop_covered:
  assumes "sorted (map hl_start (current # rest))"
  shows "covered (mergeLoop merged current rest)
         = covered merged \<union> covered (current # rest)"
  using assms
proof (induction rest arbitrary: merged current)
  case Nil
  then show ?case by (simp add: covered_append)
next
  case (Cons nxt rest)
  show ?case
  proof (cases "hl_start nxt < hl_end current")
    case True
    let ?m = "if hl_start nxt > hl_start current
              then merged @ [\<lparr>hl_start = hl_start current, hl_end = hl_start nxt,
                               hl_color = hl_color current\<rparr>]
              else merged"
    let ?c = "\<lparr>hl_start = hl_start nxt, hl_end = max (hl_end current) (hl_end nxt),
               hl_color = hl_color nxt\<rparr>"
    have s: "sorted (map hl_start (?c # rest))" and le: "hl_start current \<le> hl_start nxt"
      using Cons.prems by auto
    have "covered (mergeLoop merged current (nxt # rest)) = covered ?m \<union> covered (?c # rest)"
      using Cons.IH [OF s, of ?m] True by simp
    also have "\<dots> = covered merged \<union> covered (current # nxt # rest)"
      using True le by (auto simp: covered_append covered_Cons covered_Nil)
    finally show ?thesis .
  next
    case False
    have s: "sorted (map hl_start (nxt # rest))"
      using Cons.prems by auto
    show ?thesis
      using Cons.IH [OF s, of "merged @ [current]"] False
      by (auto simp: covered_append covered_Cons covered_Nil)
  qed
qed

lemma merge_disjoint:
  assumes "sorted (map hl_start hs)" and "\<forall>h \<in> set hs. hl_start h \<le> hl_end h"
  shows "sorted_wrt (\<lambda>a b. hl_end a \<le> hl_start b) (mergeOverlappingHighlights hs t)
         \<and> (\<forall>m \<in> set (mergeOverlappingHighlights hs t). hl_start m \<le> hl_end m)"
proof (cases hs)
  case Nil
  then show ?thesis by (simp add: mergeOverlappingHighlights_def)
next
  case (Cons h rest)
  from Cons assms have 1: "sorted (map hl_start (h # rest))"
    and 2: "hl_start h \<le> hl_end h" and 3: "\<forall>x \<in> set rest. hl_start x \<le> hl_end x"
    by simp_all
  have "sorted_wrt (\<lambda>a b. hl_end a \<le> hl_start b) (mergeLoop [] h rest)
        \<and> (\<forall>m \<in> set (mergeLoop [] h rest). hl_start m \<le> hl_end m)"
    by (rule mergeLoop_disjoint [OF _ _ 2 1 3]) simp_all
  with Cons show ?thesis
    by (simp add: mergeOverlappingHighlights_def)
qed

lemma merge_bound:
  assumes "\<forall>h \<in> set hs. hl_end h \<le> N"
  shows "\<forall>m \<in> set (mergeOverlappingHighlights hs t). hl_end m \<le> N"
proof (cases hs)
  case Nil
  then show ?thesis by (simp add: mergeOverlappingHighlights_def)
next
  case (Cons h rest)
  from Cons assms have 1: "hl_end h \<le> N" and 2: "\<forall>x \<in> set rest. hl_end x \<le> N"
    by simp_all
  have "\<forall>m \<in> set (mergeLoop [] h rest). hl_end m \<le> N"
    by (rule mergeLoop_bound [OF _ 1 2]) simp
  with Cons show ?thesis
    by (simp add: mergeOverlappingHighlights_def)
qed

section \<open>Properties of the segmenter\<close>

lemma substring_inside:
  "a \<le> b \<Longrightarrow> b \<le> length s \<Longrightarrow> substring s a b = take (b - a) (drop a s)"
  by (simp add: substring_def Let_def min_def max_def)

lemma take_substring:
  assumes "a \<le> b" and "b \<le> length s"
  shows "take a s @ substring s a b = take b s"
proof -
  have "take b s = take (a + (b - a)) s" using assms by simp
  also have "\<dots> = take a s @ take (b - a) (drop a s)" by (rule take_add)
  finally show ?thesis using assms by (simp add: substring_inside)
qed

lemma segmentLoop_concat:
  assumes "sorted_wrt (\<lambda>a b. hl_end a \<le> hl_start b) hs"
    and "\<forall>h \<in> set hs. cur \<le> hl_start h \<and> hl_start h \<le> hl_end h \<and> hl_end h \<le> length t"
    and "cur \<le> length t"
    and "concat (map seg_text segs) = take cur t"
  shows "concat (map seg_text (fst (segmentLoop t segs cur hs)))
           = take (snd (segmentLoop t segs cur hs)) t
         \<and> snd (segmentLoop t segs cur hs) \<le> length t"
  using assms
proof (induction hs arbitrary: segs cur)
  case Nil
  then show ?case by simp
next
  case (Cons h hs)
  let ?segs = "(if hl_start h > cur
         then segs @ [plainSegment (substring t cur (hl_start h))]
         else segs)
        @ [\<lparr>seg_text = substring t (hl_start h) (hl_end h), highlighted = True,
             seg_color = Some (hl_color h)\<rparr>]"
  from Cons.prems have b: "cur \<le> hl_start h" "hl_start h \<le> hl_end h" "hl_end h \<le> length t"
    by simp_all
  have 1: "sorted_wrt (\<lambda>a b. hl_end a \<le> hl_start b) hs"
    using Cons.prems(1) by simp
  have 2: "\<forall>x \<in> set hs. hl_end h \<le> hl_start x \<and> hl_start x \<le> hl_end x \<and> hl_end x \<le> length t"
    using Cons.prems(1,2) by simp
  have "concat (map seg_text (if hl_start h > cur
         then segs @ [plainSegment (substring t cur (hl_start h))]
         else segs)) = take (hl_start h) t"
  proof (cases "hl_start h > cur")
    case True
    with b Cons.prems(4) take_substring [of cur "hl_start h" t] show ?thesis
      by (simp add: plainSegment_def)
  next
    case False
    with b have "hl_start h = cur" by simp
    with False Cons.prems(4) show ?thesis by simp
  qed
  then have 4: "concat (map seg_text ?segs) = take (hl_end h) t"
    using take_substring [of "hl_start h" "hl_end h" t] b by simp
  from Cons.IH [OF 1 2 b(3) 4] show ?case by simp
qed

lemma ruleHighlights_eq:
  "ruleHighlights t r
     = Inr (scan (\<not> caseSensitive r) (tokens (rule_text r)) (rule_color r) t 0)"
  by (simp add: ruleHighlights_def compile_buildPattern)

lemma collectHighlights_spans:
  "\<exists>hs. collectHighlights t rules = Inr hs
        \<and> (\<forall>h \<in> set hs. hl_start h \<le> hl_end h \<and> hl_end h \<le> length t)"
proof (induction rules)
  case Nil
  show ?case by simp
next
  case (Cons r rules)
  then obtain hs where hs: "collectHighlights t rules = Inr hs"
    and b: "\<forall>h \<in> set hs. hl_start h \<le> hl_end h \<and> hl_end h \<le> length t"
    by blast
  let ?m = "scan (\<not> caseSensitive r) (tokens (rule_text r)) (rule_color r) t 0"
  have "\<forall>h \<in> set ?m. hl_start h \<le> hl_end h \<and> hl_end h \<le> length t"
    using scan_spans by blast
  with b have "\<forall>h \<in> set (?m @ hs). hl_start h \<le> hl_end h \<and> hl_end h \<le> length t"
    by auto
  moreover have "collectHighlights t (r # rules) = Inr (?m @ hs)"
    by (simp add: ruleHighlights_eq hs)
  ultimately show ?case by blast
qed

lemma segments_of_highlights:
  assumes "\<forall>h \<in> set hs. hl_start h \<le> hl_end h \<and> hl_end h \<le> length t"
  shows "\<exists>segs.
           (let sorted = sort_key hl_start hs;
                mergedHighlights = mergeOverlappingHighlights sorted t;
                (segments, currentIndex) = segmentLoop t [] 0 mergedHighlights;
                segments' =
                  (if currentIndex < length t
                   then segments @ [plainSegment (substringFrom t currentIndex)]
                   else segments)
            in Inr (if length segments' > 0 then segments' else [plainSegment t])
               :: error + segment list) = Inr segs
           \<and> concat (map seg_text segs) = t"
proof -
  let ?s = "sort_key hl_start hs"
  let ?m = "mergeOverlappingHighlights ?s t"
  have s1: "sorted (map hl_start ?s)" by simp
  have s2: "\<forall>h \<in> set ?s. hl_start h \<le> hl_end h" using assms by simp
  have s3: "\<forall>h \<in> set ?s. hl_end h \<le> length t" using assms by simp
  from merge_disjoint [OF s1 s2, of t]
  have d: "sorted_wrt (\<lambda>a b. hl_end a \<le> hl_start b) ?m"
    and v: "\<forall>m \<in> set ?m. hl_start m \<le> hl_end m" by simp_all
  from merge_bound [OF s3, of t] have e: "\<forall>m \<in> set ?m. hl_end m \<le> length t" .
  have p: "\<forall>h \<in> set ?m. 0 \<le> hl_start h \<and> hl_start h \<le> hl_end h \<and> hl_end h \<le> length t"
    using v e by simp
  obtain segs cur where sl: "segmentLoop t [] 0 ?m = (segs, cur)"
    by (cases "segmentLoop t [] 0 ?m")
  from segmentLoop_concat [OF d p, of "[]"] sl
  have c: "concat (map seg_text segs) = take cur t" and l: "cur \<le> length t"
    by simp_all
  have r: "substringFrom t cur = drop cur t"
    using l by (simp add: substringFrom_def substring_inside)
  show ?thesis
  proof (cases "cur < length t")
    case True
    with sl c r show ?thesis by (simp add: plainSegment_def)
  next
    case False
    with l have "take cur t = t" by simp
    with False sl c show ?thesis by (auto simp: plainSegment_def)
  qed
qed

section \<open>Properties of the text extraction\<close>



lemma pageText_concat:
  "pageText items = concat (map (\<lambda>lineText. lineText @ [CHR 0x0A]) (pageLines items))"
proof -
  have "foldl (\<lambda>acc lineText. acc @ lineText @ [CHR 0x0A]) a ls
          = a @ concat (map (\<lambda>lineText. lineText @ [CHR 0x0A]) ls)" for a ls
    by (induction ls arbitrary: a) simp_all
  then show ?thesis by (simp add: pageText_def)
qed

lemma pagesLoop_join:
  "pageNum + length pages = Suc totalPages \<Longrightarrow>
     pagesLoop fullText pageNum totalPages pages
       = fullText @ specJoin (map pageText pages)"
proof (induction pages arbitrary: fullText pageNum)
  case Nil
  show ?case by simp
next
  case (Cons items rest)
  show ?case
  proof (cases rest)
    case Nil
    with Cons.prems show ?thesis by simp
  next
    case (Cons items' rest')
    with Cons.prems have lt: "pageNum < totalPages"
      and nx: "Suc pageNum + length rest = Suc totalPages" by simp_all
    from Cons.IH [OF nx, of "fullText @ pageText items @ [CHR 0x0A]"] lt Cons
    show ?thesis by simp
  qed
qed

lemma trim_edges:
  assumes "trim s \<noteq> []"
  shows "\<not> isSpace (hd (trim s)) \<and> \<not> isSpace (last (trim s))"
proof -
  let ?a = "dropWhile isSpace s"
  let ?b = "dropWhile isSpace (rev ?a)"
  from assms have b: "?b \<noteq> []" by (simp add: trim_def)
  have a: "?a \<noteq> []"
  proof
    assume "?a = []"
    with b show False by simp
  qed
  have "last (trim s) = hd ?b" using b by (simp add: trim_def last_rev)
  moreover have "\<not> isSpace (hd ?b)" using b by (rule hd_dropWhile)
  moreover have "hd (trim s) = last ?b" using b by (simp add: trim_def hd_rev)
  moreover have "last ?b = last (rev ?a)"
    using b by (metis last_appendR takeWhile_dropWhile_id)
  moreover have "last (rev ?a) = hd ?a" using a by (simp add: last_rev)
  moreover have "\<not> isSpace (hd ?a)" using a by (rule hd_dropWhile)
  ultimately show ?thesis by simp
qed

section \<open>The claims about the merge\<close>

text \<open>
  C3 (non-overlap invariant of the merge output). For every list of spans sorted by
  non-decreasing start in which each span has start \<open>\<le>\<close> end, the list returned by
  \<open>mergeOverlappingHighlights\<close> is sorted by start and pairwise non-overlapping: for
  all \<open>i < j\<close> the end of the \<open>i\<close>-th merged span is at most the start of the \<open>j\<close>-th.
\<close>

theorem merge_non_overlap:
  assumes "sorted (map hl_start hs)" and "\<forall>h \<in> set hs. hl_start h \<le> hl_end h"
  shows "sorted (map hl_start (mergeOverlappingHighlights hs t))
         \<and> (\<forall>i j. i < j \<and> j < length (mergeOverlappingHighlights hs t) \<longrightarrow>
               hl_end (mergeOverlappingHighlights hs t ! i)
                 \<le> hl_start (mergeOverlappingHighlights hs t ! j))"
proof -
  let ?m = "mergeOverlappingHighlights hs t"
  from merge_disjoint [OF assms] have d: "sorted_wrt (\<lambda>a b. hl_end a \<le> hl_start b) ?m"
    and v: "\<forall>m \<in> set ?m. hl_start m \<le> hl_end m"
    by simp_all
  have no: "\<forall>i j. i < j \<and> j < length ?m \<longrightarrow> hl_end (?m ! i) \<le> hl_start (?m ! j)"
    using d by (simp add: sorted_wrt_iff_nth_less)
  have "sorted_wrt (\<lambda>a b. hl_start a \<le> hl_start b) ?m"
  proof (rule sorted_wrt_mono_rel [OF _ d])
    fix a b
    assume "a \<in> set ?m" and "b \<in> set ?m" and "hl_end a \<le> hl_start b"
    with v show "hl_start a \<le> hl_start b" by (meson order_trans)
  qed
  then have "sorted (map hl_start ?m)"
    by (simp add: sorted_map)
  with no show ?thesis by simp
qed

theorem merge_non_overlap_witness:
  "sorted (map hl_start
      [\<lparr>hl_start = 0, hl_end = 5, hl_color = ''red''\<rparr>,
       \<lparr>hl_start = 3, hl_end = 8, hl_color = ''green''\<rparr>,
       \<lparr>hl_start = 3, hl_end = 4, hl_color = ''yellow''\<rparr>,
       \<lparr>hl_start = 10, hl_end = 12, hl_color = ''red''\<rparr>])
   \<and> mergeOverlappingHighlights
        [\<lparr>hl_start = 0, hl_end = 5, hl_color = ''red''\<rparr>,
         \<lparr>hl_start = 3, hl_end = 8, hl_color = ''green''\<rparr>,
         \<lparr>hl_start = 3, hl_end = 4, hl_color = ''yellow''\<rparr>,
         \<lparr>hl_start = 10, hl_end = 12, hl_color = ''red''\<rparr>] ''0123456789ab''
      = [\<lparr>hl_start = 0, hl_end = 3, hl_color = ''red''\<rparr>,
         \<lparr>hl_start = 3, hl_end = 8, hl_color = ''yellow''\<rparr>,
         \<lparr>hl_start = 10, hl_end = 12, hl_color = ''red''\<rparr>]
   \<and> hl_end (mergeOverlappingHighlights
        [\<lparr>hl_start = 0, hl_end = 5, hl_color = ''red''\<rparr>,
         \<lparr>hl_start = 3, hl_end = 8, hl_color = ''green''\<rparr>,
         \<lparr>hl_start = 3, hl_end = 4, hl_color = ''yellow''\<rparr>,
         \<lparr>hl_start = 10, hl_end = 12, hl_color = ''red''\<rparr>] ''0123456789ab'' ! 0)
        \<le> hl_start (mergeOverlappingHighlights
        [\<lparr>hl_start = 0, hl_end = 5, hl_color = ''red''\<rparr>,
         \<lparr>hl_start = 3, hl_end = 8, hl_color = ''green''\<rparr>,
         \<lparr>hl_start = 3, hl_end = 4, hl_color = ''yellow''\<rparr>,
         \<lparr>hl_start = 10, hl_end = 12, hl_color = ''red''\<rparr>] ''0123456789ab'' ! 2)"
  (is "sorted (map hl_start ?hs) \<and> ?M = ?R \<and> ?apart")
proof -
  have s: "sorted (map hl_start ?hs)" by simp
  have v: "\<forall>h \<in> set ?hs. hl_start h \<le> hl_end h" by simp
  have e: "?M = ?R" by (simp add: mergeOverlappingHighlights_def)
  then have l: "(0::nat) < 2 \<and> 2 < length ?M" by simp
  have "\<forall>i j. i < j \<and> j < length ?M \<longrightarrow> hl_end (?M ! i) \<le> hl_start (?M ! j)"
    by (rule merge_non_overlap [OF s v, THEN conjunct2])
  with l have d: ?apart by blast
  from s e d show ?thesis by (intro conjI)
qed

text \<open>
  C10 (coverage preservation of the merge). For every list of spans sorted by
  non-decreasing start, each with start \<open>\<le>\<close> end, the positions covered by the output of
  \<open>mergeOverlappingHighlights\<close> are exactly the positions covered by the input spans.
\<close>

theorem merge_coverage:
  assumes "sorted (map hl_start hs)" and "\<forall>h \<in> set hs. hl_start h \<le> hl_end h"
  shows "covered (mergeOverlappingHighlights hs t) = covered hs"
proof (cases hs)
  case Nil
  then show ?thesis by (simp add: mergeOverlappingHighlights_def)
next
  case (Cons h rest)
  with assms(1) have "sorted (map hl_start (h # rest))"
    by simp
  from mergeLoop_covered [OF this, of "[]"] Cons show ?thesis
    by (simp add: mergeOverlappingHighlights_def covered_Nil)
qed

theorem merge_coverage_witness:
  "sorted (map hl_start
      [\<lparr>hl_start = 0, hl_end = 5, hl_color = ''red''\<rparr>,
       \<lparr>hl_start = 3, hl_end = 8, hl_color = ''green''\<rparr>,
       \<lparr>hl_start = 10, hl_end = 12, hl_color = ''red''\<rparr>])
   \<and> covered (mergeOverlappingHighlights
        [\<lparr>hl_start = 0, hl_end = 5, hl_color = ''red''\<rparr>,
         \<lparr>hl_start = 3, hl_end = 8, hl_color = ''green''\<rparr>,
         \<lparr>hl_start = 10, hl_end = 12, hl_color = ''red''\<rparr>] ''0123456789ab'')
      = covered
        [\<lparr>hl_start = 0, hl_end = 5, hl_color = ''red''\<rparr>,
         \<lparr>hl_start = 3, hl_end = 8, hl_color = ''green''\<rparr>,
         \<lparr>hl_start = 10, hl_end = 12, hl_color = ''red''\<rparr>]"
  (is "?sorted \<and> ?same")
proof -
  have s: ?sorted by simp
  have v: "\<forall>h \<in> set [\<lparr>hl_start = 0, hl_end = 5, hl_color = ''red''\<rparr>,
       \<lparr>hl_start = 3, hl_end = 8, hl_color = ''green''\<rparr>,
       \<lparr>hl_start = 10::nat, hl_end = 12::nat, hl_color = ''red''\<rparr>]. hl_start h \<le> hl_end h"
    by simp
  have c: ?same by (rule merge_coverage [OF s v])
  from s c show ?thesis by (intro conjI)
qed

section \<open>The claims about the segmentation\<close>

text \<open>
  C1 (lossless partition). For every document string and every list of highlight rules
  (also a missing one), \<open>createHighlightedSegments\<close> returns a list of segments, and
  the texts of the segments concatenated in order are exactly the document.
\<close>

theorem lossless_partition:
  "\<exists>segments. createHighlightedSegments originalText highlightRules = Inr segments
     \<and> concat (map seg_text segments) = originalText"
proof (cases highlightRules)
  case None
  then show ?thesis by (simp add: createHighlightedSegments_def plainSegment_def)
next
  case (Some rules)
  show ?thesis
  proof (cases "rules = []")
    case True
    with Some show ?thesis by (simp add: createHighlightedSegments_def plainSegment_def)
  next
    case False
    from collectHighlights_spans [of originalText rules]
    obtain hs where hs: "collectHighlights originalText rules = Inr hs"
      and b: "\<forall>h \<in> set hs. hl_start h \<le> hl_end h \<and> hl_end h \<le> length originalText"
      by blast
    from segments_of_highlights [OF b] Some False hs show ?thesis
      by (simp add: createHighlightedSegments_def)
  qed
qed

text \<open>
  C7 (degenerate segmentation). If the rule list is missing or empty, or if no rule
  produces any match, \<open>createHighlightedSegments\<close> returns exactly one segment: the
  whole document, not highlighted, without colour. That holds for the empty document
  too, and the returned list is never empty.
\<close>

theorem degenerate_segmentation:
  "createHighlightedSegments originalText None
     = Inr [\<lparr>seg_text = originalText, highlighted = False, seg_color = None\<rparr>]
   \<and> createHighlightedSegments originalText (Some [])
     = Inr [\<lparr>seg_text = originalText, highlighted = False, seg_color = None\<rparr>]
   \<and> (collectHighlights originalText rules = Inr [] \<longrightarrow>
        createHighlightedSegments originalText (Some rules)
          = Inr [\<lparr>seg_text = originalText, highlighted = False, seg_color = None\<rparr>])
   \<and> createHighlightedSegments originalText highlightRules \<noteq> Inr []"
proof (intro conjI impI)
  show "createHighlightedSegments originalText None
     = Inr [\<lparr>seg_text = originalText, highlighted = False, seg_color = None\<rparr>]"
    by (simp add: createHighlightedSegments_def plainSegment_def)
  show "createHighlightedSegments originalText (Some [])
     = Inr [\<lparr>seg_text = originalText, highlighted = False, seg_color = None\<rparr>]"
    by (simp add: createHighlightedSegments_def plainSegment_def)
  show "createHighlightedSegments originalText (Some rules)
          = Inr [\<lparr>seg_text = originalText, highlighted = False, seg_color = None\<rparr>]"
    if "collectHighlights originalText rules = Inr []"
    using that
    by (cases "originalText = []")
      (simp_all add: createHighlightedSegments_def mergeOverlappingHighlights_def
        plainSegment_def substringFrom_def substring_def)
  show "createHighlightedSegments originalText highlightRules \<noteq> Inr []"
    by (auto simp: createHighlightedSegments_def Let_def
        split: option.splits sum.splits prod.splits if_splits)
qed

theorem degenerate_segmentation_witness:
  "collectHighlights ''abc'' [\<lparr>rule_text = ''x'', rule_color = ''red'', caseSensitive = False\<rparr>]
     = Inr []
   \<and> createHighlightedSegments ''abc''
       (Some [\<lparr>rule_text = ''x'', rule_color = ''red'', caseSensitive = False\<rparr>])
     = Inr [\<lparr>seg_text = ''abc'', highlighted = False, seg_color = None\<rparr>]"
proof -
  have c: "collectHighlights ''abc''
      [\<lparr>rule_text = ''x'', rule_color = ''red'', caseSensitive = False\<rparr>] = Inr []"
    by code_simp
  with degenerate_segmentation
    [of "''abc''" "[\<lparr>rule_text = ''x'', rule_color = ''red'', caseSensitive = False\<rparr>]"]
  show ?thesis by blast
qed

section \<open>The claims about the matcher\<close>

text \<open>
  C9 (the zero-length guard is unreachable). For a rule whose text is not empty after
  trimming, the pattern is built without error and never matches the empty string, so
  the scan loop obeys its own equation with the guard removed (\<open>lastIndex\<close> is always
  the end of the match), and every span emitted has start \<open><\<close> end. The scan is a total
  function (its termination is proved with its definition) and emits at most as many
  spans as the document has characters.
\<close>

theorem zero_length_guard_unreachable:
  assumes "trim (rule_text rule) \<noteq> []"
  shows "compile (buildPattern (rule_text rule)) = Some (tokens (rule_text rule))
         \<and> matchHere ic (tokens (rule_text rule)) s \<noteq> Some 0
         \<and> scan ic (tokens (rule_text rule)) col originalText lastIndex
             = (case exec ic (tokens (rule_text rule)) originalText lastIndex of
                  None \<Rightarrow> []
                | Some (index, n) \<Rightarrow>
                    \<lparr>hl_start = index, hl_end = index + n, hl_color = col\<rparr>
                      # scan ic (tokens (rule_text rule)) col originalText (index + n))
         \<and> (\<exists>hs. ruleHighlights originalText rule = Inr hs
               \<and> (\<forall>h \<in> set hs. hl_start h < hl_end h \<and> hl_end h \<le> length originalText)
               \<and> length hs \<le> length originalText)"
  (is "?compiled \<and> ?nonempty \<and> ?unguarded \<and> ?spans")
proof -
  let ?as = "tokens (rule_text rule)"
  let ?hs = "scan (\<not> caseSensitive rule) ?as (rule_color rule) originalText 0"
  from assms have ne: "?as \<noteq> []"
    using trim_nonempty tokens_Nil_iff by blast
  have 1: ?compiled by (rule compile_buildPattern)
  have 2: ?nonempty using matchHere_pos [OF ne, of ic s 0] by auto
  have 3: ?unguarded
  proof (cases "exec ic ?as originalText lastIndex")
    case None
    then show ?thesis by (simp add: scan.simps [of ic ?as col originalText lastIndex])
  next
    case (Some r)
    obtain j n where r: "r = (j, n)" by (cases r)
    with Some have e: "exec ic ?as originalText lastIndex = Some (j, n)" by simp
    from exec_Some [OF e] have "matchHere ic ?as (drop j originalText) = Some n" by simp
    from matchHere_pos [OF ne this] have "n \<noteq> 0" by simp
    with e show ?thesis by (simp add: scan.simps [of ic ?as col originalText lastIndex])
  qed
  have "hl_start h < hl_end h \<and> hl_end h \<le> length originalText" if "h \<in> set ?hs" for h
  proof -
    from scan_spans [OF that]
    have m: "matchHere (\<not> caseSensitive rule) ?as (drop (hl_start h) originalText)
               = Some (hl_end h - hl_start h)"
      and e: "hl_end h \<le> length originalText" by simp_all
    from matchHere_pos [OF ne m] e show ?thesis by simp
  qed
  moreover from scan_length [OF ne] have "length ?hs \<le> length originalText"
    by (metis diff_zero)
  ultimately have 4: ?spans
    by (simp add: ruleHighlights_eq)
  from 1 2 3 4 show ?thesis by (intro conjI)
qed

theorem zero_length_guard_unreachable_witness:
  "trim (rule_text \<lparr>rule_text = ''ab'', rule_color = ''red'', caseSensitive = True\<rparr>) \<noteq> []
   \<and> ruleHighlights ''xabab'' \<lparr>rule_text = ''ab'', rule_color = ''red'', caseSensitive = True\<rparr>
       = Inr [\<lparr>hl_start = 1, hl_end = 3, hl_color = ''red''\<rparr>,
              \<lparr>hl_start = 3, hl_end = 5, hl_color = ''red''\<rparr>]
   \<and> (\<exists>hs. ruleHighlights ''xabab''
              \<lparr>rule_text = ''ab'', rule_color = ''red'', caseSensitive = True\<rparr> = Inr hs
         \<and> (\<forall>h \<in> set hs. hl_start h < hl_end h \<and> hl_end h \<le> length ''xabab'')
         \<and> length hs \<le> length ''xabab'')"
  (is "?pre \<and> ?run \<and> ?post")
proof -
  have p: ?pre by (simp add: trim_def isSpace_def)
  have r: ?run by code_simp
  have q: ?post
    by (rule zero_length_guard_unreachable [OF p, THEN conjunct2, THEN conjunct2, THEN conjunct2])
  from p r q show ?thesis by (intro conjI)
qed

text \<open>
  C6 (whitespace-tolerant matching). The pattern built from a rule text compiles to the
  tokens of the text: one whitespace token for each maximal whitespace run, one literal
  for every other character, the pattern's own syntax characters included. Every span
  a rule emits is an instance of these tokens, and wherever the document contains an
  instance the rule emits a span that starts at or before it. In particular the rule
  text \<open>A  B\<close> (two spaces) matches \<open>A\<close>, newline, \<open>B\<close> and \<open>A   B\<close> (three spaces), with
  the case respected when the rule is case sensitive and ignored when it is not.
\<close>

theorem whitespace_tolerant_matching:
  "compile (buildPattern (rule_text rule)) = Some (tokens (rule_text rule))
   \<and> (\<exists>hs. ruleHighlights originalText rule = Inr hs
         \<and> (\<forall>h \<in> set hs.
               instanceOf (\<not> caseSensitive rule) (tokens (rule_text rule))
                 (substring originalText (hl_start h) (hl_end h))))
   \<and> (instanceOf (\<not> caseSensitive rule) (tokens (rule_text rule)) cand \<longrightarrow>
        (\<exists>hs h. ruleHighlights (pre @ cand @ post) rule = Inr hs \<and> h \<in> set hs
           \<and> hl_start h \<le> length pre))
   \<and> createHighlightedSegments ''A\<newline>B and A   B''
        (Some [\<lparr>rule_text = ''A  B'', rule_color = ''red'', caseSensitive = True\<rparr>])
       = Inr [\<lparr>seg_text = ''A\<newline>B'', highlighted = True, seg_color = Some ''red''\<rparr>,
              \<lparr>seg_text = '' and '', highlighted = False, seg_color = None\<rparr>,
              \<lparr>seg_text = ''A   B'', highlighted = True, seg_color = Some ''red''\<rparr>]
   \<and> createHighlightedSegments ''a\<newline>b and A   B''
        (Some [\<lparr>rule_text = ''A  B'', rule_color = ''red'', caseSensitive = False\<rparr>])
       = Inr [\<lparr>seg_text = ''a\<newline>b'', highlighted = True, seg_color = Some ''red''\<rparr>,
              \<lparr>seg_text = '' and '', highlighted = False, seg_color = None\<rparr>,
              \<lparr>seg_text = ''A   B'', highlighted = True, seg_color = Some ''red''\<rparr>]"
  (is "?compiled \<and> ?sound \<and> ?complete \<and> ?sensitive \<and> ?insensitive")
proof -
  let ?ic = "\<not> caseSensitive rule"
  let ?as = "tokens (rule_text rule)"
  have 1: ?compiled by (rule compile_buildPattern)
  have 2: ?sound
  proof -
    let ?hs = "scan ?ic ?as (rule_color rule) originalText 0"
    have "instanceOf ?ic ?as (substring originalText (hl_start h) (hl_end h))"
      if "h \<in> set ?hs" for h
    proof -
      from scan_spans [OF that]
      have b: "hl_start h \<le> hl_end h" "hl_end h \<le> length originalText"
        and m: "matchHere ?ic ?as (drop (hl_start h) originalText)
                  = Some (hl_end h - hl_start h)"
        by simp_all
      from matchHere_sound [OF m] b show ?thesis
        by (simp add: substring_inside)
    qed
    then show ?thesis by (simp add: ruleHighlights_eq)
  qed
  have 3: ?complete
  proof
    assume "instanceOf ?ic ?as cand"
    from matchHere_complete [OF this, of post] obtain n
      where "matchHere ?ic ?as (cand @ post) = Some n" by blast
    then have "matchHere ?ic ?as (drop (length pre) (pre @ cand @ post)) = Some n"
      by simp
    from exec_finds [OF this, of 0] obtain j' n'
      where e: "exec ?ic ?as (pre @ cand @ post) 0 = Some (j', n')" and j: "j' \<le> length pre"
      by auto
    from scan_first [OF e, of "rule_color rule"] j
    show "\<exists>hs h. ruleHighlights (pre @ cand @ post) rule = Inr hs \<and> h \<in> set hs
           \<and> hl_start h \<le> length pre"
      unfolding ruleHighlights_eq by force
  qed
  have 4: ?sensitive by code_simp
  have 5: ?insensitive by code_simp
  from 1 2 3 4 5 show ?thesis by (intro conjI)
qed

theorem whitespace_tolerant_matching_witness:
  "instanceOf (\<not> caseSensitive \<lparr>rule_text = ''A  B'', rule_color = ''red'', caseSensitive = True\<rparr>)
     (tokens (rule_text \<lparr>rule_text = ''A  B'', rule_color = ''red'', caseSensitive = True\<rparr>))
     ''A\<newline>B''
   \<and> (\<exists>hs h. ruleHighlights (''xx '' @ ''A\<newline>B'' @ '' yy'')
                \<lparr>rule_text = ''A  B'', rule_color = ''red'', caseSensitive = True\<rparr> = Inr hs
          \<and> h \<in> set hs \<and> hl_start h \<le> length ''xx '')"
  (is "?inst \<and> ?found")
proof -
  have i: ?inst by code_simp
  from whitespace_tolerant_matching
    [of "\<lparr>rule_text = ''A  B'', rule_color = ''red'', caseSensitive = True\<rparr>"
      originalText "''A\<newline>B''" "''xx ''" "'' yy''" for originalText]
  have "?inst \<longrightarrow> ?found" by blast
  with i show ?thesis by blast
qed

text \<open>
  C2 (precedence). The claim is that in the overlap of two rules' spans the colour of
  the span collected later wins, whichever span starts first. The spans are sorted by
  start before the merge, and the merge gives the overlap to the span that comes later
  in the sorted list. Here the rule for \<open>cdef\<close> is collected first and the rule for
  \<open>abcd\<close> second; the overlap \<open>cd\<close> is emitted in the colour of the first rule, and the
  result is the same when the two rules are given in the other order.
\<close>

theorem precedence_follows_start_order:
  "collectHighlights ''abcdef''
     [\<lparr>rule_text = ''cdef'', rule_color = ''red'', caseSensitive = True\<rparr>,
      \<lparr>rule_text = ''abcd'', rule_color = ''green'', caseSensitive = True\<rparr>]
     = Inr [\<lparr>hl_start = 2, hl_end = 6, hl_color = ''red''\<rparr>,
            \<lparr>hl_start = 0, hl_end = 4, hl_color = ''green''\<rparr>]
   \<and> createHighlightedSegments ''abcdef''
       (Some [\<lparr>rule_text = ''cdef'', rule_color = ''red'', caseSensitive = True\<rparr>,
              \<lparr>rule_text = ''abcd'', rule_color = ''green'', caseSensitive = True\<rparr>])
     = Inr [\<lparr>seg_text = ''ab'', highlighted = True, seg_color = Some ''green''\<rparr>,
            \<lparr>seg_text = ''cdef'', highlighted = True, seg_color = Some ''red''\<rparr>]
   \<and> createHighlightedSegments ''abcdef''
       (Some [\<lparr>rule_text = ''abcd'', rule_color = ''green'', caseSensitive = True\<rparr>,
              \<lparr>rule_text = ''cdef'', rule_color = ''red'', caseSensitive = True\<rparr>])
     = Inr [\<lparr>seg_text = ''ab'', highlighted = True, seg_color = Some ''green''\<rparr>,
            \<lparr>seg_text = ''cdef'', highlighted = True, seg_color = Some ''red''\<rparr>]"
  by code_simp

section \<open>The claim about validation\<close>

text \<open>
  C8 (accepted colours). The claim is that a rule with a non-empty text and the colour
  \<open>#e74c3c\<close> is valid. The validator accepts the three named colours only: the rule
  with the hex colour is reported, the same rule with the colour \<open>red\<close> is not.
\<close>

theorem hex_color_rejected:
  "validateHighlightRules
     (Array [\<lparr>ro_text = String ''Exclusion'', ro_color = String ''#e74c3c'',
              ro_caseSensitive = Boolean False\<rparr>])
     = \<lparr>isValid = False, errors = [''Rule 1: Color must be one of: red, green, yellow'']\<rparr>
   \<and> validateHighlightRules
     (Array [\<lparr>ro_text = String ''Exclusion'', ro_color = String ''red'',
              ro_caseSensitive = Boolean False\<rparr>])
     = \<lparr>isValid = True, errors = []\<rparr>"
  by code_simp

section \<open>The claims about the text extraction\<close>


text \<open>
  C5 (page joining). The text of a page is its lines, each ended by a newline; every
  page but the last contributes its text and one extra newline, the last page its text
  only, and the result is the trimmed concatenation, which neither starts nor ends with
  whitespace. Two pages with the single lines \<open>A\<close> and \<open>B\<close> give \<open>A\<close>, two newlines,
  \<open>B\<close>.
\<close>

theorem page_joining:
  "pageText items = concat (map (\<lambda>lineText. lineText @ [CHR 0x0A]) (pageLines items))
   \<and> extractTextFromPDF (Pages pages) = Inr (trim (specJoin (map pageText pages)))
   \<and> (pageLines page1 = [''A''] \<and> pageLines page2 = [''B''] \<longrightarrow>
        extractTextFromPDF (Pages [page1, page2]) = Inr ''A\<newline>\<newline>B'')
   \<and> (extractTextFromPDF (Pages pages) = Inr fullText \<and> fullText \<noteq> [] \<longrightarrow>
        \<not> isSpace (hd fullText) \<and> \<not> isSpace (last fullText))"
  (is "?page \<and> ?general \<and> ?two \<and> ?trimmed")
proof -
  have 1: ?page by (rule pageText_concat)
  have 2: "extractTextFromPDF (Pages ps) = Inr (trim (specJoin (map pageText ps)))" for ps
    using pagesLoop_join [of 1 ps "length ps" "[]"]
    by (simp add: extractTextFromPDF_def)
  have 3: ?two
  proof
    assume "pageLines page1 = [''A''] \<and> pageLines page2 = [''B'']"
    then have "pageText page1 = ''A\<newline>''" and "pageText page2 = ''B\<newline>''"
      by (simp_all add: pageText_concat)
    then show "extractTextFromPDF (Pages [page1, page2]) = Inr ''A\<newline>\<newline>B''"
      by (simp add: 2 trim_def isSpace_def)
  qed
  have 4: ?trimmed
    using trim_edges [of "pagesLoop [] 1 (length pages) pages"]
    by (auto simp: extractTextFromPDF_def)
  from 1 2 3 4 show ?thesis by (intro conjI)
qed

theorem page_joining_witness:
  "pageLines [\<lparr>str = Some ''A'', transform = Some (1, 0, 0, 1, 0, 700), width = Some 8\<rparr>]
     = [''A'']
   \<and> pageLines [\<lparr>str = Some ''B'', transform = Some (1, 0, 0, 1, 0, 700), width = Some 8\<rparr>]
     = [''B'']
   \<and> extractTextFromPDF (Pages
        [[\<lparr>str = Some ''A'', transform = Some (1, 0, 0, 1, 0, 700), width = Some 8\<rparr>],
         [\<lparr>str = Some ''B'', transform = Some (1, 0, 0, 1, 0, 700), width = Some 8\<rparr>]])
     = Inr ''A\<newline>\<newline>B''"
  (is "?first \<and> ?second \<and> ?joined")
proof -
  have a: ?first by code_simp
  have b: ?second by code_simp
  from page_joining
    [of _ _ "[\<lparr>str = Some ''A'', transform = Some (1, 0, 0, 1, 0, 700), width = Some 8\<rparr>]"
      "[\<lparr>str = Some ''B'', transform = Some (1, 0, 0, 1, 0, 700), width = Some 8\<rparr>]"]
  have "?first \<and> ?second \<longrightarrow> ?joined" by blast
  with a b show ?thesis by blast
qed

end
